theory Spec2Isabelle
  imports Complex_Main "HOL-Library.Multiset"
begin

section \<open>The insert tree (ctree/itree.hpp)\<close>

text \<open>
  \<open>InsertTree<Item, Index>\<close> keeps four parallel vectors and a counter. The class
  declaration is not part of the sources at hand; the fields are the ones the member
  functions \<open>add_vertex\<close> and \<open>clear\<close> touch. \<open>Index\<close> is a signed integer type (the
  drivers instantiate it with \<open>int64_t\<close>); it is modelled by \<open>int\<close>, since every index
  and level is bounded by the number of vertices held in memory.
\<close>

record 'a InsertTree =
  vertices :: "'a list"
  parents :: "int list"
  children :: "int list list"
  levels :: "int list"
  nlevels :: int

text \<open>
  \<open>std::vector::operator[]\<close> outside the bounds is undefined behaviour in the source;
  the model makes it an error value.
\<close>

datatype error = OutOfRange

text \<open>
  \<open>add_vertex(item, parent)\<close>, lines 1 to 23. The three \<open>push_back\<close>/\<open>emplace_back\<close> calls
  come first, so \<open>children[parent]\<close> is read in the vector that already holds the new
  empty list, while \<open>levels[parent]\<close> is read before \<open>levels.push_back\<close>.
\<close>

definition add_vertex :: "'a InsertTree \<Rightarrow> 'a \<Rightarrow> int \<Rightarrow> error + ('a InsertTree \<times> int)" where
  "add_vertex t item parent =
     (let vertex = int (length (vertices t));
          vs = vertices t @ [item];
          ps = parents t @ [parent];
          cs = children t @ [[]]
      in if parent \<ge> 0 then
           (if nat parent < length (levels t) \<and> nat parent < length cs then
              (let level = levels t ! nat parent + 1;
                   cs' = cs[nat parent := cs ! nat parent @ [vertex]]
               in Inr (\<lparr>vertices = vs, parents = ps, children = cs',
                        levels = levels t @ [level],
                        nlevels = max (level + 1) (nlevels t)\<rparr>, vertex))
            else Inl OutOfRange)
         else
           (let level = 0
            in Inr (\<lparr>vertices = vs, parents = ps, children = cs,
                     levels = levels t @ [level],
                     nlevels = max (level + 1) (nlevels t)\<rparr>, vertex)))"

text \<open>
  \<open>get_children(parent, ids)\<close>, lines 25 to 31: copies the children list into \<open>ids\<close> and
  returns its size.
\<close>

definition get_children :: "'a InsertTree \<Rightarrow> int \<Rightarrow> error + (int list \<times> int)" where
  "get_children t parent =
     (if 0 \<le> parent \<and> nat parent < length (children t)
      then Inr (children t ! nat parent, int (length (children t ! nat parent)))
      else Inl OutOfRange)"

text \<open>
  \<open>clear()\<close>, lines 33 to 40: it clears \<open>vertices\<close>, \<open>levels\<close> and \<open>children\<close> and resets
  \<open>nlevels\<close>. The \<open>parents\<close> vector is not mentioned in its body and so keeps its
  entries.
\<close>

definition clear :: "'a InsertTree \<Rightarrow> 'a InsertTree" where
  "clear t = t\<lparr>vertices := [], levels := [], children := [], nlevels := 0\<rparr>"

text \<open>
  Modelled from the spec: the constructor of \<open>InsertTree\<close> is not in the sources. A
  freshly constructed tree has no vertex (default-constructed vectors), and its level
  counter starts at the value \<open>clear\<close> resets it to.
\<close>

definition empty_tree :: "'a InsertTree" where
  "empty_tree = \<lparr>vertices = [], parents = [], children = [], levels = [], nlevels = 0\<rparr>"

text \<open>A caller's sequence of operations on one tree; the first failing call ends it.\<close>

datatype 'a tree_op = AddVertex 'a int | Clear

fun run_ops :: "'a InsertTree \<Rightarrow> 'a tree_op list \<Rightarrow> error + 'a InsertTree" where
  "run_ops t [] = Inr t"
| "run_ops t (AddVertex item parent # ops) =
     (case add_vertex t item parent of
        Inl e \<Rightarrow> Inl e
      | Inr (t', vertex) \<Rightarrow> run_ops t' ops)"
| "run_ops t (Clear # ops) = run_ops (clear t) ops"

text \<open>
  The vectors \<open>vertices\<close>, \<open>children\<close> and \<open>levels\<close> grow and shrink together: the
  invariant of every state the operations reach.
\<close>

definition in_step :: "'a InsertTree \<Rightarrow> bool" where
  "in_step t = (length (children t) = length (vertices t) \<and> length (levels t) = length (vertices t))"

text \<open>The level counter agrees with the levels stored.\<close>

definition nlevels_ok :: "'a InsertTree \<Rightarrow> bool" where
  "nlevels_ok t = (nlevels t = (if levels t = [] then 0 else 1 + Max (set (levels t))))"

section \<open>The brute-force check of the epsilon graph (src/main.cpp)\<close>

text \<open>
  \<open>graph_is_correct(points, radius, graph)\<close>, lines 176 to 202. The distance functor
  \<open>Distance\<close> (metrics.h) and the point type are not in the sources: the distance is a
  parameter \<open>distance\<close> with values in any type that has an order \<open>\<le>\<close>, of which nothing
  is assumed, so the comparison \<open>distance(points[i], points[j]) <= radius\<close> stands for
  whatever the floating-point comparison answers. \<open>Index\<close> is \<open>int64_t\<close>, modelled by
  \<open>int\<close>.

  \<open>std::is_permutation(first1, last1, first2)\<close> compares the range \<open>[first1, last1)\<close>
  with the range of the same length that starts at \<open>first2\<close>: it answers whether one is
  a rearrangement of the other.
\<close>

definition is_permutation :: "'a list \<Rightarrow> 'a list \<Rightarrow> bool" where
  "is_permutation xs ys = (mset xs = mset (take (length xs) ys))"

text \<open>The inner loop, lines 190 to 192: the indices \<open>j\<close> pushed onto \<open>neighbors\<close>.\<close>

definition brute_force_neighbors :: "('p \<Rightarrow> 'p \<Rightarrow> 'r::ord) \<Rightarrow> 'p list \<Rightarrow> 'r \<Rightarrow> nat \<Rightarrow> int list" where
  "brute_force_neighbors distance points radius i =
     map int (filter (\<lambda>j. distance (points ! i) (points ! j) \<le> radius) [0..<length points])"

text \<open>
  The outer loop, lines 184 to 199, over a list of indices, with the flag \<open>correct\<close>
  as its state. An iteration that finds the flag cleared does nothing; otherwise it
  reads \<open>graph[i]\<close>, which is outside the vector when \<open>graph\<close> has fewer rows than
  \<open>points\<close>. The \<open>omp parallel for\<close> hands the iterations to threads; the only shared
  write clears the flag, so the flag ends cleared exactly when some iteration that ran
  its test found a mismatch. The model runs the iterations in the order of the list.
\<close>

fun graph_loop ::
  "('p \<Rightarrow> 'p \<Rightarrow> 'r::ord) \<Rightarrow> 'p list \<Rightarrow> 'r \<Rightarrow> int list list \<Rightarrow> nat list \<Rightarrow> bool \<Rightarrow> error + bool" where
  "graph_loop distance points radius graph [] correct = Inr correct"
| "graph_loop distance points radius graph (i # ids) correct =
     (if \<not> correct then graph_loop distance points radius graph ids correct
      else if length graph \<le> i then Inl OutOfRange
      else (let neighbors = brute_force_neighbors distance points radius i
            in if length neighbors \<noteq> length (graph ! i) \<or> \<not> is_permutation neighbors (graph ! i)
               then graph_loop distance points radius graph ids False
               else graph_loop distance points radius graph ids correct))"

definition graph_is_correct ::
  "('p \<Rightarrow> 'p \<Rightarrow> 'r::ord) \<Rightarrow> 'p list \<Rightarrow> 'r \<Rightarrow> int list list \<Rightarrow> error + bool" where
  "graph_is_correct distance points radius graph =
     graph_loop distance points radius graph [0..<length points] True"

text \<open>The test of one iteration, line 194, as a predicate on the row index.\<close>

definition matches :: "('p \<Rightarrow> 'p \<Rightarrow> 'r::ord) \<Rightarrow> 'p list \<Rightarrow> 'r \<Rightarrow> int list list \<Rightarrow> nat \<Rightarrow> bool" where
  "matches distance points radius graph i =
     (length (brute_force_neighbors distance points radius i) = length (graph ! i) \<and>
      is_permutation (brute_force_neighbors distance points radius i) (graph ! i))"

section \<open>The shared-memory driver (src/main.cpp)\<close>

subsection \<open>The C library's getopt\<close>

text \<open>
  \<open>parse_arguments\<close> calls \<open>getopt(argc, argv, "r:S:s:t:e:l:o:TAGvh")\<close> until it
  answers \<open>-1\<close>. Each call answers an option character with its argument in \<open>optarg\<close>,
  or \<open>'?'\<close> after writing a report to standard error (\<open>opterr\<close> is left at 1): for a
  character that is not in the option string, and for an option whose argument is
  missing.
\<close>

datatype getopt_return =
    Opt char string
  | Invalid char
  | Requires_argument char

fun return_value :: "getopt_return \<Rightarrow> char" where
  "return_value (Opt c a) = c"
| "return_value (Invalid c) = CHR ''?''"
| "return_value (Requires_argument c) = CHR ''?''"

text \<open>
  \<open>optarg\<close> after the call. It is a null pointer after an option that takes no
  argument and after \<open>'?'\<close>; the driver reads it only after options that take one.
\<close>

fun optarg_of :: "getopt_return \<Rightarrow> string" where
  "optarg_of (Opt c a) = a"
| "optarg_of (Invalid c) = []"
| "optarg_of (Requires_argument c) = []"

text \<open>
  The search of the option string for a character: \<open>None\<close> when it is absent,
  otherwise whether a colon follows it.
\<close>

fun takes_argument :: "string \<Rightarrow> char \<Rightarrow> bool option" where
  "takes_argument [] c = None"
| "takes_argument (x # xs) c =
     (if x = c then Some (case xs of [] \<Rightarrow> False | y # ys \<Rightarrow> y = CHR '':'')
      else takes_argument xs c)"

text \<open>An element of \<open>argv\<close> holds options when it starts with \<open>-\<close> and is longer than that.\<close>

fun is_option_element :: "string \<Rightarrow> bool" where
  "is_option_element (c # d # cs) = (c = CHR ''-'')"
| "is_option_element cs = False"

definition returned ::
  "getopt_return \<Rightarrow> getopt_return list \<times> string list \<Rightarrow> getopt_return list \<times> string list" where
  "returned r calls = (r # fst calls, snd calls)"

text \<open>
  All the calls of one scan: the answers in order, up to the call that answers \<open>-1\<close>,
  and the operands that call leaves at \<open>argv[optind]\<close> and after. The arguments are the
  option characters still to read in the element at hand, the elements after it, and
  the operands passed over. The element \<open>--\<close> ends the scan. At an element that holds
  no option, a scan that permutes (the GNU library, unless \<open>POSIXLY_CORRECT\<close> is set)
  passes over it and moves it behind the options; otherwise the scan ends there. A
  character that takes an argument finds it in the rest of its element or, when that is
  empty, in the next element, whatever that element is.
\<close>

fun getopt_calls ::
  "bool \<Rightarrow> string \<Rightarrow> string \<Rightarrow> string list \<Rightarrow> string list \<Rightarrow> getopt_return list \<times> string list" where
  "getopt_calls permute optstring [] [] skipped = ([], skipped)"
| "getopt_calls permute optstring [] (a # rest) skipped =
     (if a = ''--'' then ([], skipped @ rest)
      else if is_option_element a then getopt_calls permute optstring (tl a) rest skipped
      else if permute then getopt_calls permute optstring [] rest (skipped @ [a])
      else ([], skipped @ a # rest))"
| "getopt_calls permute optstring (c # cs) rest skipped =
     (case (if c = CHR '':'' then None else takes_argument optstring c) of
        None \<Rightarrow> returned (Invalid c) (getopt_calls permute optstring cs rest skipped)
      | Some False \<Rightarrow> returned (Opt c []) (getopt_calls permute optstring cs rest skipped)
      | Some True \<Rightarrow>
          (if cs \<noteq> [] then returned (Opt c cs) (getopt_calls permute optstring [] rest skipped)
           else (case rest of
                   [] \<Rightarrow> returned (Requires_argument c) (getopt_calls permute optstring [] [] skipped)
                 | a # rest' \<Rightarrow> returned (Opt c a) (getopt_calls permute optstring [] rest' skipped))))"

subsection \<open>What the driver does\<close>

text \<open>
  A run is observed through its exit status and the sequence of its actions: the texts
  it writes to standard error and standard output, and its calls of the code that is
  not in the sources (the point reader, the cover tree). A formatted line is represented
  by the statement that prints it; the two verification lines carry their verdict
  (\<open>True\<close> for the word PASSED, \<open>False\<close> for FAILED), and the graph line its edge count.
\<close>

datatype stderr_text =
    Getopt_invalid_option char
  | Getopt_requires_argument char
  | Missing_arguments
  | Usage

datatype stdout_line =
    Cmd
  | Point_parameters
  | Ctree_parameters
  | Graph_parameters
  | Read_points
  | Constructed_cover_tree
  | Tree_verification bool
  | Constructed_epsilon_graph nat
  | Graph_verification bool

datatype action =
    Stderr stderr_text
  | Stdout stdout_line
  | Read_from_file "string option"
  | Build real real int bool bool
  | Is_correct real
  | Point_query nat real

text \<open>
  The global variables of lines 41 to 54 that \<open>parse_arguments\<close> sets, with their
  initial values. \<open>Real\<close> is \<open>float\<close> or \<open>double\<close>; the driver only stores these numbers,
  compares the radius with 0 and passes them on, and they are modelled by \<open>real\<close>. A null
  \<open>char*\<close> is \<open>None\<close>.
\<close>

record config =
  fname :: "string option"
  tree_fname :: "string option"
  radius :: real
  split_ratio :: real
  switch_size :: real
  min_hub_size :: int
  level_synch :: bool
  verify_tree :: bool
  verify_graph :: bool
  build_graph :: bool
  verbose :: bool
  nthreads :: int

definition initial_config :: config where
  "initial_config =
     \<lparr>fname = None, tree_fname = None, radius = 0, split_ratio = 0.5, switch_size = 0,
      min_hub_size = 10, level_synch = True, verify_tree = False, verify_graph = False,
      build_graph = False, verbose = False, nthreads = 1\<rparr>"

text \<open>
  The body of the option loop, lines 141 to 151, for the answer \<open>c\<close> of \<open>getopt\<close>:
  \<open>Inl 0\<close> is \<open>usage(0)\<close>, which ends the process. No branch handles \<open>'?'\<close> or \<open>'e'\<close>. The
  C library's \<open>atof\<close> and \<open>atoi\<close>, with the conversion to the variable's type, are
  parameters.
\<close>

definition loop_body ::
  "(string \<Rightarrow> real) \<Rightarrow> (string \<Rightarrow> int) \<Rightarrow> config \<Rightarrow> char \<Rightarrow> string \<Rightarrow> int + config" where
  "loop_body atof atoi g c optarg =
     (if c = CHR ''r'' then Inr (g\<lparr>radius := atof optarg\<rparr>)
      else if c = CHR ''S'' then Inr (g\<lparr>split_ratio := atof optarg\<rparr>)
      else if c = CHR ''s'' then Inr (g\<lparr>switch_size := atof optarg\<rparr>)
      else if c = CHR ''l'' then Inr (g\<lparr>min_hub_size := atoi optarg\<rparr>)
      else if c = CHR ''t'' then Inr (g\<lparr>nthreads := atoi optarg\<rparr>)
      else if c = CHR ''o'' then Inr (g\<lparr>tree_fname := Some optarg\<rparr>)
      else if c = CHR ''A'' then Inr (g\<lparr>level_synch := False\<rparr>)
      else if c = CHR ''T'' then Inr (g\<lparr>verify_tree := True\<rparr>)
      else if c = CHR ''G'' then Inr (g\<lparr>verify_graph := True\<rparr>)
      else if c = CHR ''v'' then Inr (g\<lparr>verbose := True\<rparr>)
      else if c = CHR ''h'' then Inl 0
      else Inr g)"

text \<open>What a call of \<open>getopt\<close> itself writes to standard error.\<close>

fun getopt_report :: "getopt_return \<Rightarrow> action list" where
  "getopt_report (Opt c a) = []"
| "getopt_report (Invalid c) = [Stderr (Getopt_invalid_option c)]"
| "getopt_report (Requires_argument c) = [Stderr (Getopt_requires_argument c)]"

text \<open>The \<open>while\<close> loop of lines 139 to 152 over the answers of \<open>getopt\<close>.\<close>

fun option_loop ::
  "(string \<Rightarrow> real) \<Rightarrow> (string \<Rightarrow> int) \<Rightarrow> config \<Rightarrow> getopt_return list \<Rightarrow>
     (int + config) \<times> action list" where
  "option_loop atof atoi g [] = (Inr g, [])"
| "option_loop atof atoi g (r # rs) =
     (case loop_body atof atoi g (return_value r) (optarg_of r) of
        Inl status \<Rightarrow> (Inl status, getopt_report r @ [Stderr Usage])
      | Inr g' \<Rightarrow>
          (case option_loop atof atoi g' rs of
             (result, tr) \<Rightarrow> (result, getopt_report r @ tr)))"

text \<open>
  \<open>parse_arguments(argc, argv)\<close>, lines 119 to 174: \<open>Inl status\<close> when it ends the
  process through \<open>usage\<close>, otherwise the variables as it leaves them; and what it
  wrote. The call \<open>omp_set_num_threads\<close> and the thread count OpenMP reports back, which
  only goes into the \<open>cmd\<close> line, are left out.
\<close>

definition parse_arguments ::
  "bool \<Rightarrow> (string \<Rightarrow> real) \<Rightarrow> (string \<Rightarrow> int) \<Rightarrow> string list \<Rightarrow> (int + config) \<times> action list" where
  "parse_arguments posixly_correct atof atoi argv =
     (case getopt_calls (\<not> posixly_correct) ''r:S:s:t:e:l:o:TAGvh'' [] (tl argv) [] of
        (returns, operands) \<Rightarrow>
          (case option_loop atof atoi initial_config returns of
             (Inl status, tr) \<Rightarrow> (Inl status, tr)
           | (Inr g, tr) \<Rightarrow>
               (case operands of
                  [] \<Rightarrow> (Inl 1, tr @ [Stderr Missing_arguments, Stderr Usage])
                | file # others \<Rightarrow>
                    (let g' = g\<lparr>fname := Some file, build_graph := (radius g > 0)\<rparr>
                     in (Inr g',
                         tr @ [Stdout Cmd, Stdout Point_parameters, Stdout Ctree_parameters] @
                           (if build_graph g' then [Stdout Graph_parameters] else []))))))"

text \<open>
  The code \<open>main\<close> calls that is not in the sources: the reader of the point file
  (vptraits.h), the cover tree's \<open>build\<close>, \<open>is_correct\<close> and \<open>point_query\<close> (ctree.h) and the
  distance. A call may not come back (it exits, aborts or runs forever); then its
  result is \<open>None\<close>. The distance is taken to return. The last field is the OpenMP
  runtime's choice of the iteration of a \<open>parallel for\<close> loop that starts next, given
  the iterations that have not started.
\<close>

record ('p, 't) collaborators =
  read_from_file :: "string option \<Rightarrow> 'p list option"
  build :: "'p list \<Rightarrow> real \<Rightarrow> real \<Rightarrow> int \<Rightarrow> bool \<Rightarrow> bool \<Rightarrow> bool \<Rightarrow> 't option"
  is_correct :: "'t \<Rightarrow> real \<Rightarrow> bool option"
  point_query :: "'t \<Rightarrow> 'p \<Rightarrow> real \<Rightarrow> int list option"
  Distance :: "'p \<Rightarrow> 'p \<Rightarrow> real"
  next_iteration :: "nat list \<Rightarrow> nat"

text \<open>
  A part of \<open>main\<close> either completes with a value or stops: in a call that does not
  come back, or at an access outside a vector. Either way it has performed actions.
\<close>

datatype stop = No_return | Undefined error

type_synonym 'a step = "(stop + 'a) \<times> action list"

definition and_then :: "'a step \<Rightarrow> ('a \<Rightarrow> 'b step) \<Rightarrow> 'b step" where
  "and_then m f =
     (case m of
        (Inl s, tr) \<Rightarrow> (Inl s, tr)
      | (Inr x, tr) \<Rightarrow> (case f x of (y, tr') \<Rightarrow> (y, tr @ tr')))"

definition call :: "action \<Rightarrow> 'a option \<Rightarrow> 'a step" where
  "call a result = (case result of None \<Rightarrow> (Inl No_return, [a]) | Some x \<Rightarrow> (Inr x, [a]))"

definition say :: "stdout_line \<Rightarrow> unit step" where
  "say l = (Inr (), [Stdout l])"

definition skip :: "unit step" where
  "skip = (Inr (), [])"

text \<open>
  The order in which the iterations of the \<open>omp parallel for\<close> loop of lines 95 to 100
  start. The loop runs each index once; which one starts next is up to the runtime and
  the number of threads. \<open>pick\<close> is that choice: from the indices still waiting it
  names a position, taken modulo their number so that every value is a choice. Every
  order of the indices comes from some \<open>pick\<close>; with one thread, the default, the loop
  runs in index order, the choice that always takes the first waiting index.
\<close>

function iteration_order :: "(nat list \<Rightarrow> nat) \<Rightarrow> nat list \<Rightarrow> nat list" where
  "iteration_order pick [] = []"
| "iteration_order pick (i # waiting) =
     (let k = (i # waiting) ! (pick (i # waiting) mod length (i # waiting))
      in k # iteration_order pick (remove1 k (i # waiting)))"
  by pat_completeness auto
termination
proof (relation "measure (\<lambda>(pick, waiting). length waiting)")
  show "wf (measure (\<lambda>(pick, waiting). length waiting))"
    by simp
next
  fix pick :: "nat list \<Rightarrow> nat" and i waiting k
  assume k: "k = (i # waiting) ! (pick (i # waiting) mod length (i # waiting))"
  have "pick (i # waiting) mod length (i # waiting) < length (i # waiting)"
    by simp
  then have "k \<in> set (i # waiting)"
    unfolding k by (rule nth_mem)
  then have "length (remove1 k (i # waiting)) < length (i # waiting)"
    by (simp add: length_remove1 del: remove1.simps)
  then show "((pick, remove1 k (i # waiting)), (pick, i # waiting)) \<in> measure (\<lambda>(pick, waiting). length waiting)"
    by simp
qed

text \<open>
  The query loop, lines 96 to 100, over the indices in the order their iterations
  start: one \<open>point_query\<close> per index, its answer stored in \<open>graph[id]\<close> and counted in
  \<open>num_edges\<close> (a sum, so its value does not depend on the order). A query that does
  not come back ends the trace there: it then holds the queries started up to that
  one, not those that other threads may start after it.
\<close>

fun query_loop ::
  "('t \<Rightarrow> 'p \<Rightarrow> real \<Rightarrow> int list option) \<Rightarrow> 't \<Rightarrow> 'p list \<Rightarrow> real \<Rightarrow> nat list \<Rightarrow>
     int list list \<Rightarrow> nat \<Rightarrow> (int list list \<times> nat) step" where
  "query_loop query ctree pts r [] graph num_edges = (Inr (graph, num_edges), [])"
| "query_loop query ctree pts r (i # ids) graph num_edges =
     (case query ctree (pts ! i) r of
        None \<Rightarrow> (Inl No_return, [Point_query i r])
      | Some row \<Rightarrow>
          (case query_loop query ctree pts r ids (graph[i := row]) (num_edges + length row) of
             (result, tr) \<Rightarrow> (result, Point_query i r # tr)))"

text \<open>The block under \<open>if (build_graph)\<close>, lines 88 to 114.\<close>

definition graph_phase :: "('p, 't) collaborators \<Rightarrow> config \<Rightarrow> 't \<Rightarrow> 'p list \<Rightarrow> unit step" where
  "graph_phase env g ctree pts =
     and_then (query_loop (point_query env) ctree pts (radius g)
                 (iteration_order (next_iteration env) [0..<length pts])
                 (replicate (length pts) []) 0)
       (\<lambda>(graph, num_edges).
     and_then (say (Constructed_epsilon_graph num_edges))
       (\<lambda>_.
     if verify_graph g then
       (case graph_is_correct (Distance env) pts (radius g) graph of
          Inl e \<Rightarrow> (Inl (Undefined e), [])
        | Inr correct \<Rightarrow> say (Graph_verification correct))
     else skip))"

text \<open>\<open>main\<close> after \<open>parse_arguments\<close> has returned, lines 65 to 114.\<close>

definition main_body :: "('p, 't) collaborators \<Rightarrow> config \<Rightarrow> unit step" where
  "main_body env g =
     and_then (call (Read_from_file (fname g)) (read_from_file env (fname g)))
       (\<lambda>pts.
     and_then (say Read_points)
       (\<lambda>_.
     and_then (call (Build (split_ratio g) (switch_size g) (min_hub_size g) (level_synch g) (verbose g))
                 (build env pts (split_ratio g) (switch_size g) (min_hub_size g)
                    (level_synch g) True (verbose g)))
       (\<lambda>ctree.
     and_then (say Constructed_cover_tree)
       (\<lambda>_.
     and_then (if verify_tree g
               then and_then (call (Is_correct (split_ratio g)) (is_correct env ctree (split_ratio g)))
                      (\<lambda>passed. say (Tree_verification passed))
               else skip)
       (\<lambda>_.
     if build_graph g then graph_phase env g ctree pts else skip)))))"

text \<open>
  \<open>main(argc, argv)\<close>, lines 59 to 117: how the process ends, and its actions. A run
  that reaches the last line returns 0.
\<close>

datatype outcome = Exit int | Stop stop

definition main ::
  "bool \<Rightarrow> (string \<Rightarrow> real) \<Rightarrow> (string \<Rightarrow> int) \<Rightarrow> ('p, 't) collaborators \<Rightarrow> string list \<Rightarrow>
     outcome \<times> action list" where
  "main posixly_correct atof atoi env argv =
     (case parse_arguments posixly_correct atof atoi argv of
        (Inl status, tr) \<Rightarrow> (Exit status, tr)
      | (Inr g, tr) \<Rightarrow>
          (case main_body env g of
             (Inl s, tr') \<Rightarrow> (Stop s, tr @ tr')
           | (Inr u, tr') \<Rightarrow> (Exit 0, tr @ tr')))"

subsection \<open>Notions used to state the driver's properties\<close>

text \<open>The answers of \<open>getopt\<close> for a command line, and the operands it leaves.\<close>

definition getopt_returns :: "bool \<Rightarrow> string list \<Rightarrow> getopt_return list" where
  "getopt_returns posixly_correct argv =
     fst (getopt_calls (\<not> posixly_correct) ''r:S:s:t:e:l:o:TAGvh'' [] (tl argv) [])"

definition getopt_operands :: "bool \<Rightarrow> string list \<Rightarrow> string list" where
  "getopt_operands posixly_correct argv =
     snd (getopt_calls (\<not> posixly_correct) ''r:S:s:t:e:l:o:TAGvh'' [] (tl argv) [])"



text \<open>The actions of the graph phase.\<close>

fun graph_phase_action :: "action \<Rightarrow> bool" where
  "graph_phase_action (Point_query i r) = True"
| "graph_phase_action (Stdout (Constructed_epsilon_graph n)) = True"
| "graph_phase_action (Stdout (Graph_verification b)) = True"
| "graph_phase_action a = False"

text \<open>The actions of \<open>main\<close> from the reading of the points to the tree's verification.\<close>

definition tree_phase_trace :: "config \<Rightarrow> bool \<Rightarrow> action list" where
  "tree_phase_trace g passed =
     [Read_from_file (fname g), Stdout Read_points,
      Build (split_ratio g) (switch_size g) (min_hub_size g) (level_synch g) (verbose g),
      Stdout Constructed_cover_tree] @
     (if verify_tree g then [Is_correct (split_ratio g), Stdout (Tree_verification passed)] else [])"

subsection \<open>A sample run\<close>

text \<open>
  Three points on a line, at 0, 1 and 5, with a tree whose queries at radius 2 answer
  the true neighbours and whose own verification fails, run by one thread; and the
  values \<open>atof\<close> and \<open>atoi\<close> give for the strings the sample command lines use.
\<close>

definition sample_env :: "(real, unit) collaborators" where
  "sample_env =
     \<lparr>read_from_file = (\<lambda>f. Some [0, 1, 5]),
      build = (\<lambda>pts sr ss mh ls b v. Some ()),
      is_correct = (\<lambda>t sr. Some False),
      point_query = (\<lambda>t p r. Some (if p = 5 then [2] else [1, 0])),
      Distance = (\<lambda>x y. \<bar>x - y\<bar>),
      next_iteration = (\<lambda>waiting. 0)\<rparr>"

definition sample_atof :: "string \<Rightarrow> real" where
  "sample_atof s = (if s = ''2'' then 2 else if s = ''-1'' then - 1 else 0)"

definition sample_atoi :: "string \<Rightarrow> int" where
  "sample_atoi s = (if s = ''4'' then 4 else 0)"

section \<open>Properties of the insert tree\<close>

lemma add_vertex_in_step:
  assumes "add_vertex t item parent = Inr (t', v)" and "in_step t"
  shows "in_step t'"
  using assms
  by (auto simp: add_vertex_def in_step_def Let_def split: if_splits)

lemma clear_in_step: "in_step (clear t)"
  by (simp add: clear_def in_step_def)

lemma add_vertex_nlevels_ok:
  assumes "add_vertex t item parent = Inr (t', v)" and "nlevels_ok t"
  shows "nlevels_ok t'"
proof (cases "levels t = []")
  case True
  with assms show ?thesis
    by (auto simp: add_vertex_def nlevels_ok_def Let_def split: if_splits)
next
  case False
  then have fin: "finite (set (levels t))" and ne: "set (levels t) \<noteq> {}"
    by simp_all
  have mx: "Max (insert l (set (levels t))) = max l (Max (set (levels t)))" for l
    using fin ne by (rule Max_insert)
  from assms False show ?thesis
    by (auto simp: add_vertex_def nlevels_ok_def Let_def mx split: if_splits)
qed

lemma clear_nlevels_ok: "nlevels_ok (clear t)"
  by (simp add: clear_def nlevels_ok_def)

lemma run_ops_invariants:
  assumes "run_ops t ops = Inr t'" and "in_step t" and "nlevels_ok t"
  shows "in_step t' \<and> nlevels_ok t'"
  using assms
proof (induction t ops rule: run_ops.induct)
  case (1 t)
  then show ?case by simp
next
  case (2 t item parent ops)
  from "2.prems"(1) obtain t1 v where
    step: "add_vertex t item parent = Inr (t1, v)" and rest: "run_ops t1 ops = Inr t'"
    by (auto split: sum.splits)
  from step "2.prems" have "in_step t1" "nlevels_ok t1"
    by (blast intro: add_vertex_in_step add_vertex_nlevels_ok)+
  with "2.IH" step rest show ?case by simp
next
  case (3 t ops)
  then show ?case by (simp add: clear_in_step clear_nlevels_ok)
qed

lemma empty_tree_invariants: "in_step empty_tree \<and> nlevels_ok empty_tree"
  by (simp add: empty_tree_def in_step_def nlevels_ok_def)

lemma run_ops_append:
  "run_ops t (xs @ ys) = (case run_ops t xs of Inl e \<Rightarrow> Inl e | Inr t' \<Rightarrow> run_ops t' ys)"
  by (induction t xs rule: run_ops.induct) (auto split: sum.splits)

lemma add_vertex_levels_nonempty:
  assumes "add_vertex t item parent = Inr (t', v)"
  shows "levels t' \<noteq> []"
  using assms by (auto simp: add_vertex_def Let_def split: if_splits)

lemma clear_parents: "parents (clear t) = parents t"
  by (simp add: clear_def)

text \<open>
  Claim C2. For every tree state and item, \<open>add_vertex(item, parent)\<close> appends exactly
  one vertex and returns its id, the number of vertices before the call. With a negative
  parent (the no-parent sentinel) the new vertex gets level 0 and no children list
  changes; with a parent that is a vertex of the tree, the new id is appended to the
  parent's children list and the new level is the parent's level plus one.
\<close>

theorem add_vertex_appends:
  assumes "parent < 0 \<or> (in_step t \<and> parent < int (length (vertices t)))"
  shows "\<exists>t'. add_vertex t item parent = Inr (t', int (length (vertices t))) \<and>
           vertices t' = vertices t @ [item] \<and>
           parents t' = parents t @ [parent] \<and>
           (if parent < 0
            then levels t' = levels t @ [0] \<and> children t' = children t @ [[]]
            else levels t' = levels t @ [levels t ! nat parent + 1] \<and>
                 children t' =
                   (children t)[nat parent := children t ! nat parent @ [int (length (vertices t))]] @ [[]])"
proof (cases "parent < 0")
  case True
  then show ?thesis by (simp add: add_vertex_def)
next
  case False
  with assms have "in_step t" and "nat parent < length (vertices t)"
    by auto
  then have "nat parent < length (levels t)" and "nat parent < length (children t)"
    by (simp_all add: in_step_def)
  with False show ?thesis
    by (simp add: add_vertex_def Let_def nth_append list_update_append)
qed

theorem add_vertex_appends_witness:
  "(\<exists>t'. add_vertex \<lparr>vertices = [10, 20 :: nat], parents = [-1, 0], children = [[1], []],
                     levels = [0, 1], nlevels = 2\<rparr> 30 1 = Inr (t', 2) \<and>
      vertices t' = [10, 20, 30] \<and> parents t' = [-1, 0, 1] \<and>
      levels t' = [0, 1, 2] \<and> children t' = [[1], [2], []]) \<and>
   (\<exists>t'. add_vertex \<lparr>vertices = [10, 20 :: nat], parents = [-1, 0], children = [[1], []],
                     levels = [0, 1], nlevels = 2\<rparr> 30 (-1) = Inr (t', 2) \<and>
      vertices t' = [10, 20, 30] \<and> parents t' = [-1, 0, -1] \<and>
      levels t' = [0, 1, 0] \<and> children t' = [[1], [], []])"
  using add_vertex_appends [of 1 "\<lparr>vertices = [10, 20 :: nat], parents = [-1, 0],
          children = [[1], []], levels = [0, 1], nlevels = 2\<rparr>" 30]
        add_vertex_appends [of "-1" "\<lparr>vertices = [10, 20 :: nat], parents = [-1, 0],
          children = [[1], []], levels = [0, 1], nlevels = 2\<rparr>" 30]
  by (simp add: in_step_def)

lemma clear_empty_tree: "clear empty_tree = empty_tree"
  by (simp add: clear_def empty_tree_def)

text \<open>
  Claim C8. In every history of \<open>add_vertex\<close> calls with valid parents (and \<open>clear\<close>
  calls) on a tree that has just been cleared, and so on a new tree, after each
  \<open>add_vertex\<close> the counter \<open>nlevels\<close>, the value \<open>num_levels()\<close> reports, is one more than
  the greatest level stored, and \<open>clear\<close> resets it to 0.
\<close>

theorem nlevels_maintained:
  assumes "run_ops (clear t0) (ops @ [AddVertex item parent]) = Inr t"
  shows "nlevels t = 1 + Max (set (levels t)) \<and> nlevels (clear t) = 0"
proof -
  from assms obtain t1 v where
    before: "run_ops (clear t0) ops = Inr t1" and
    step: "add_vertex t1 item parent = Inr (t, v)"
    by (auto simp: run_ops_append split: sum.splits)
  from before have "nlevels_ok t1"
    using run_ops_invariants clear_in_step clear_nlevels_ok by blast
  with step have "nlevels_ok t"
    by (rule add_vertex_nlevels_ok)
  moreover from step have "levels t \<noteq> []"
    by (rule add_vertex_levels_nonempty)
  ultimately show ?thesis
    by (simp add: nlevels_ok_def clear_def)
qed

theorem nlevels_maintained_witness:
  "run_ops (clear (empty_tree :: nat InsertTree))
     ([AddVertex 5 (-1), Clear, AddVertex 6 (-1), AddVertex 7 0] @ [AddVertex 8 1])
     = Inr \<lparr>vertices = [6, 7, 8], parents = [-1, -1, 0, 1], children = [[1], [2], []],
            levels = [0, 1, 2], nlevels = 3\<rparr> \<and>
   (3 :: int) = 1 + Max (set [0, 1, 2])"
  using nlevels_maintained [of "empty_tree :: nat InsertTree"
          "[AddVertex 5 (-1), Clear, AddVertex 6 (-1), AddVertex 7 0]"
          "8 :: nat" 1 "\<lparr>vertices = [6, 7, 8], parents = [-1, -1, 0, 1],
             children = [[1], [2], []], levels = [0, 1, 2], nlevels = 3\<rparr>"]
  by (simp add: empty_tree_def add_vertex_def clear_def)

text \<open>
  Claim C9 says that \<open>clear\<close> keeps one \<open>parents\<close> entry per vertex, so that calls after
  a \<open>clear\<close> leave the state a new tree would have. The code's \<open>clear\<close> leaves \<open>parents\<close>
  as it is: after one insertion and a \<open>clear\<close> the tree has no vertex and one parent
  entry, and the next insertion gives a state that differs from the new tree's.
\<close>

theorem clear_keeps_parents:
  "run_ops (empty_tree :: nat InsertTree) [AddVertex 7 (-1), Clear]
     = Inr \<lparr>vertices = [], parents = [-1], children = [], levels = [], nlevels = 0\<rparr> \<and>
   run_ops (empty_tree :: nat InsertTree) [AddVertex 7 (-1), Clear, AddVertex 8 (-1)]
     = Inr \<lparr>vertices = [8], parents = [-1, -1], children = [[]], levels = [0], nlevels = 1\<rparr> \<and>
   run_ops (empty_tree :: nat InsertTree) [AddVertex 8 (-1)]
     = Inr \<lparr>vertices = [8], parents = [-1], children = [[]], levels = [0], nlevels = 1\<rparr>"
  by (simp add: empty_tree_def add_vertex_def clear_def)

section \<open>Properties of the graph check\<close>

lemma graph_loop_skips:
  "graph_loop d pts r graph ids False = Inr False"
  by (induction ids) simp_all

lemma graph_loop_all:
  assumes "\<forall>i\<in>set ids. i < length graph"
  shows "graph_loop d pts r graph ids True =
           Inr (\<forall>i\<in>set ids. matches d pts r graph i)"
  using assms
  by (induction ids) (auto simp: matches_def Let_def graph_loop_skips)

lemma distinct_brute_force_neighbors: "distinct (brute_force_neighbors d pts r i)"
  by (simp add: brute_force_neighbors_def distinct_map inj_on_def)

lemma set_brute_force_neighbors:
  "set (brute_force_neighbors d pts r i) =
     int ` {j. j < length pts \<and> d (pts ! i) (pts ! j) \<le> r}"
  by (auto simp: brute_force_neighbors_def)

lemma matches_iff:
  "matches d pts r graph i \<longleftrightarrow>
     distinct (graph ! i) \<and>
     set (graph ! i) = int ` {j. j < length pts \<and> d (pts ! i) (pts ! j) \<le> r}"
proof -
  let ?ns = "brute_force_neighbors d pts r i"
  have "matches d pts r graph i \<longleftrightarrow> mset ?ns = mset (graph ! i)"
  proof
    assume "matches d pts r graph i"
    then show "mset ?ns = mset (graph ! i)"
      by (simp add: matches_def is_permutation_def)
  next
    assume eq: "mset ?ns = mset (graph ! i)"
    then have "length ?ns = length (graph ! i)"
      by (rule mset_eq_length)
    with eq show "matches d pts r graph i"
      by (simp add: matches_def is_permutation_def)
  qed
  also have "\<dots> \<longleftrightarrow> distinct (graph ! i) \<and> set (graph ! i) = set ?ns"
    using distinct_brute_force_neighbors [of d pts r i]
    by (metis mset_eq_imp_distinct_iff mset_eq_setD set_eq_iff_mset_eq_distinct)
  finally show ?thesis
    by (simp add: set_brute_force_neighbors)
qed

lemma graph_loop_True:
  assumes "graph_loop d pts r graph ids c = Inr True"
  shows "c \<and> (\<forall>i\<in>set ids. i < length graph \<and> matches d pts r graph i)"
  using assms
proof (induction ids arbitrary: c)
  case Nil
  then show ?case by simp
next
  case (Cons i ids)
  show ?case
  proof (cases c)
    case False
    with Cons.prems show ?thesis
      by (simp add: graph_loop_skips)
  next
    case True
    with Cons.prems have inside: "i < length graph"
      by (auto split: if_splits)
    show ?thesis
    proof (cases "matches d pts r graph i")
      case False
      with True inside Cons.prems show ?thesis
        by (simp add: matches_def Let_def graph_loop_skips split: if_splits)
    next
      case m: True
      with True inside Cons.prems have "graph_loop d pts r graph ids True = Inr True"
        by (simp add: matches_def Let_def split: if_splits)
      from Cons.IH [OF this] True inside m show ?thesis
        by simp
    qed
  qed
qed

lemma graph_loop_order:
  assumes "\<forall>i\<in>set ids. i < length graph" and "set ids = {..<length pts}"
  shows "graph_loop d pts r graph ids True = graph_is_correct d pts r graph"
proof -
  from assms have "\<forall>i\<in>set [0..<length pts]. i < length graph"
    by auto
  with assms show ?thesis
    by (simp add: graph_is_correct_def graph_loop_all atLeast0LessThan)
qed

lemma graph_is_correct_verdict:
  assumes "length graph = length pts"
  shows "graph_is_correct d pts r graph =
           Inr (\<forall>i<length pts.
                  distinct (graph ! i) \<and>
                  set (graph ! i) =
                    int ` {j. j < length pts \<and> d (pts ! i) (pts ! j) \<le> r})"
  using assms by (auto simp: graph_is_correct_def graph_loop_all matches_iff)

text \<open>
  Claim C1. For every point array, radius and adjacency list with one list per point,
  \<open>graph_is_correct\<close> returns true exactly when every \<open>graph[i]\<close> is a permutation of the
  brute-force neighbour set of point \<open>i\<close>, the indices \<open>j\<close> with
  \<open>d(points[i], points[j]) \<le> radius\<close>: it lists each of them once and nothing else.
\<close>

theorem graph_is_correct_iff:
  assumes "length graph = length pts"
  shows "graph_is_correct d pts r graph =
           Inr (\<forall>i<length pts.
                  distinct (graph ! i) \<and>
                  set (graph ! i) =
                    int ` {j. j < length pts \<and> d (pts ! i) (pts ! j) \<le> r})"
  using assms by (auto simp: graph_is_correct_def graph_loop_all matches_iff)

theorem graph_is_correct_iff_witness:
  "length [[1, 0], [0, 1], [2 :: int]] = length [0, 1, 5 :: real] \<and>
   graph_is_correct (\<lambda>x y. \<bar>x - y\<bar>) [0, 1, 5 :: real] 2 [[1, 0], [0, 1], [2]] = Inr True \<and>
   (\<forall>i<length [0, 1, 5 :: real].
      distinct ([[1, 0], [0, 1], [2 :: int]] ! i) \<and>
      set ([[1, 0], [0, 1], [2 :: int]] ! i) =
        int ` {j. j < length [0, 1, 5 :: real] \<and>
                  \<bar>[0, 1, 5 :: real] ! i - [0, 1, 5] ! j\<bar> \<le> 2}) = True \<and>
   graph_is_correct (\<lambda>x y. \<bar>x - y\<bar>) [0, 1, 5 :: real] 2 [[1], [0, 1], [2]] = Inr False"
proof -
  have len: "length [[1, 0], [0, 1], [2 :: int]] = length [0, 1, 5 :: real]"
    by simp
  have run: "graph_is_correct (\<lambda>x y. \<bar>x - y\<bar>) [0, 1, 5 :: real] 2 [[1, 0], [0, 1], [2]] = Inr True"
    by (simp add: graph_is_correct_def brute_force_neighbors_def is_permutation_def upt_rec)
  have bad: "graph_is_correct (\<lambda>x y. \<bar>x - y\<bar>) [0, 1, 5 :: real] 2 [[1], [0, 1], [2]] = Inr False"
    by (simp add: graph_is_correct_def brute_force_neighbors_def is_permutation_def upt_rec)
  from graph_is_correct_iff [OF len, of "\<lambda>x y. \<bar>x - y\<bar>" 2] run
  have "(\<forall>i<length [0, 1, 5 :: real].
      distinct ([[1, 0], [0, 1], [2 :: int]] ! i) \<and>
      set ([[1, 0], [0, 1], [2 :: int]] ! i) =
        int ` {j. j < length [0, 1, 5 :: real] \<and>
                  \<bar>[0, 1, 5 :: real] ! i - [0, 1, 5] ! j\<bar> \<le> 2}) = True"
    by (simp only: sum.inject)
  with len run bad show ?thesis
    by (simp only: simp_thms)
qed

text \<open>
  Claim C10. With a distance that is 0 from a point to itself and a radius that is not
  negative, the brute-force neighbour list of point \<open>i\<close> contains \<open>i\<close>; so the check
  accepts a graph only if every point's list holds the point itself.
\<close>

theorem self_loop_required:
  fixes d :: "'p \<Rightarrow> 'p \<Rightarrow> 'r::{ord,zero}"
  assumes "d (pts ! i) (pts ! i) = 0" and "0 \<le> r" and "i < length pts"
  shows "int i \<in> set (brute_force_neighbors d pts r i) \<and>
         (graph_is_correct d pts r graph = Inr True \<longrightarrow> int i \<in> set (graph ! i))"
proof -
  from assms have self: "int i \<in> set (brute_force_neighbors d pts r i)"
    by (simp add: set_brute_force_neighbors)
  have "int i \<in> set (graph ! i)" if "graph_is_correct d pts r graph = Inr True"
  proof -
    from that assms(3) have "matches d pts r graph i"
      using graph_loop_True [of d pts r graph "[0..<length pts]" True]
      by (simp add: graph_is_correct_def)
    then have "set (graph ! i) = set (brute_force_neighbors d pts r i)"
      by (simp add: matches_iff set_brute_force_neighbors)
    with self show ?thesis by simp
  qed
  with self show ?thesis by simp
qed

theorem self_loop_required_witness:
  "\<bar>[0, 1, 5 :: real] ! 2 - [0, 1, 5] ! 2\<bar> = 0 \<and> (0 :: real) \<le> 2 \<and> 2 < length [0, 1, 5 :: real] \<and>
   int 2 \<in> set (brute_force_neighbors (\<lambda>x y. \<bar>x - y\<bar>) [0, 1, 5 :: real] 2 2) \<and>
   graph_is_correct (\<lambda>x y. \<bar>x - y\<bar>) [0, 1, 5 :: real] 2 [[1, 0], [0, 1], [2]] = Inr True \<and>
   int 2 \<in> set ([[1, 0], [0, 1], [2]] ! 2)"
proof -
  have run: "graph_is_correct (\<lambda>x y. \<bar>x - y\<bar>) [0, 1, 5 :: real] 2 [[1, 0], [0, 1], [2]] = Inr True"
    by (simp add: graph_is_correct_def brute_force_neighbors_def is_permutation_def upt_rec)
  from self_loop_required [of "\<lambda>x y. \<bar>x - y\<bar>" "[0, 1, 5 :: real]" 2 2 "[[1, 0], [0, 1], [2]]"] run
  show ?thesis
    by simp
qed


section \<open>Properties of the driver\<close>




lemma parse_arguments_unfold:
  "parse_arguments px atof atoi argv =
     (case option_loop atof atoi initial_config (getopt_returns px argv) of
        (Inl status, tr) \<Rightarrow> (Inl status, tr)
      | (Inr g, tr) \<Rightarrow>
          (case getopt_operands px argv of
             [] \<Rightarrow> (Inl 1, tr @ [Stderr Missing_arguments, Stderr Usage])
           | file # others \<Rightarrow>
               (Inr (g\<lparr>fname := Some file, build_graph := (radius g > 0)\<rparr>),
                tr @ [Stdout Cmd, Stdout Point_parameters, Stdout Ctree_parameters] @
                  (if radius g > 0 then [Stdout Graph_parameters] else []))))"
  by (simp add: parse_arguments_def getopt_returns_def getopt_operands_def split_def Let_def
      split: sum.splits list.splits)










lemma mset_iteration_order: "mset (iteration_order pick xs) = mset xs"
proof (induction pick xs rule: iteration_order.induct)
  case (1 pick)
  show ?case by simp
next
  case (2 pick i waiting)
  let ?k = "(i # waiting) ! (pick (i # waiting) mod length (i # waiting))"
  have "pick (i # waiting) mod length (i # waiting) < length (i # waiting)"
    by simp
  then have mem: "?k \<in> set (i # waiting)"
    by (rule nth_mem)
  from "2.IH" [of ?k] have "mset (iteration_order pick (remove1 ?k (i # waiting))) = mset (remove1 ?k (i # waiting))"
    by simp
  with mem show ?case
    by (simp add: Let_def del: remove1.simps)
qed

lemma set_iteration_order: "set (iteration_order pick [0..<n]) = {..<n}"
proof -
  have "set (iteration_order pick [0..<n]) = set [0..<n]"
    using mset_iteration_order [of pick "[0..<n]"] by (rule mset_eq_setD)
  then show ?thesis by (simp add: atLeast0LessThan)
qed

lemma distinct_iteration_order: "distinct (iteration_order pick [0..<n])"
  using mset_iteration_order [of pick "[0..<n]"] distinct_upt mset_eq_imp_distinct_iff by blast

lemma iteration_order_first: "iteration_order (\<lambda>waiting. 0) xs = xs"
  by (induction xs) (simp_all add: Let_def)

lemma iteration_order_cong:
  assumes "\<forall>ys. length ys \<le> length xs \<longrightarrow> p ys = q ys"
  shows "iteration_order p xs = iteration_order q xs"
  using assms
proof (induction p xs rule: iteration_order.induct)
  case (1 pick)
  show ?case by simp
next
  case (2 pick i waiting)
  let ?k = "(i # waiting) ! (pick (i # waiting) mod length (i # waiting))"
  from "2.prems" have same: "q (i # waiting) = pick (i # waiting)"
    by simp
  have "length (remove1 ?k (i # waiting)) \<le> length (i # waiting)"
    by (simp add: length_remove1 del: remove1.simps)
  with "2.prems" have "\<forall>ys. length ys \<le> length (remove1 ?k (i # waiting)) \<longrightarrow> pick ys = q ys"
    by auto
  from "2.IH" [OF refl this] same show ?case
    by (simp add: Let_def del: remove1.simps)
qed

lemma iteration_order_any:
  assumes "mset ys = mset xs"
  shows "\<exists>pick. iteration_order pick xs = ys"
  using assms
proof (induction ys arbitrary: xs)
  case Nil
  then show ?case by simp
next
  case (Cons y ys)
  then have mem: "y \<in> set xs"
    by (metis list.set_intros(1) mset_eq_setD)
  then obtain n where n: "n < length xs" "xs ! n = y"
    by (auto simp: in_set_conv_nth)
  from mem obtain x xs' where xs: "xs = x # xs'"
    by (cases xs) auto
  from Cons.prems mem have "mset ys = mset (remove1 y xs)"
    by (metis add_mset_remove_trivial mset.simps(2) mset_remove1)
  from Cons.IH [OF this] obtain p where p: "iteration_order p (remove1 y xs) = ys"
    by blast
  define q where "q = p(xs := n)"
  from mem have "length (remove1 y xs) < length xs"
    by (simp add: length_remove1 xs del: remove1.simps)
  then have "\<forall>zs. length zs \<le> length (remove1 y xs) \<longrightarrow> q zs = p zs"
    by (auto simp: q_def)
  then have "iteration_order q (remove1 y xs) = iteration_order p (remove1 y xs)"
    by (rule iteration_order_cong)
  moreover have "iteration_order q xs =
      (let k = xs ! (q xs mod length xs) in k # iteration_order q (remove1 k xs))"
    unfolding xs by (rule iteration_order.simps)
  moreover from n have "xs ! (q xs mod length xs) = y"
    by (simp add: q_def)
  ultimately have "iteration_order q xs = y # ys"
    using p by (simp add: Let_def)
  then show ?case by blast
qed


lemma query_loop_stops:
  assumes "fst (query_loop q ctree pts r ids graph ne) = Inl s"
  shows "s = No_return \<and> snd (query_loop q ctree pts r ids graph ne) \<noteq> [] \<and>
         (\<exists>i. last (snd (query_loop q ctree pts r ids graph ne)) = Point_query i r)"
  using assms
proof (induction ids arbitrary: graph ne)
  case Nil
  then show ?case by simp
next
  case (Cons i ids)
  show ?case
  proof (cases "q ctree (pts ! i) r")
    case None
    with Cons.prems show ?thesis by simp
  next
    case (Some row)
    with Cons.prems have "fst (query_loop q ctree pts r ids (graph[i := row]) (ne + length row)) = Inl s"
      by (simp add: split_def)
    from Cons.IH [OF this] Some show ?thesis
      by (simp add: split_def)
  qed
qed

lemma query_loop_length:
  assumes "fst (query_loop q ctree pts r ids graph ne) = Inr (graph', ne')"
  shows "length graph' = length graph"
  using assms
proof (induction ids arbitrary: graph ne)
  case Nil
  then show ?case by simp
next
  case (Cons i ids)
  then show ?case
    by (cases "q ctree (pts ! i) r") (auto simp: split_def)
qed

lemma query_loop_first:
  assumes "ids \<noteq> []"
  shows "Point_query (hd ids) r \<in> set (snd (query_loop q ctree pts r ids graph ne))"
  using assms by (cases ids) (auto simp: split_def split: option.splits)

lemma graph_is_correct_returns:
  assumes "length graph = length pts"
  shows "\<exists>b. graph_is_correct d pts r graph = Inr b"
  using assms by (simp add: graph_is_correct_def graph_loop_all)

lemma graph_phase_stops:
  assumes "fst (graph_phase env g ctree pts) = Inl s"
  shows "s = No_return \<and> snd (graph_phase env g ctree pts) \<noteq> [] \<and>
         (\<exists>i r. last (snd (graph_phase env g ctree pts)) = Point_query i r)"
proof -
  let ?Q = "query_loop (point_query env) ctree pts (radius g)
              (iteration_order (next_iteration env) [0..<length pts])
              (replicate (length pts) []) 0"
  show ?thesis
  proof (cases "fst ?Q")
    case (Inl s')
    then have "graph_phase env g ctree pts = (Inl s', snd ?Q)"
      by (simp add: graph_phase_def and_then_def split_def)
    with assms query_loop_stops [OF Inl] show ?thesis
      by auto
  next
    case (Inr res)
    obtain graph ne where res: "res = (graph, ne)"
      by (cases res)
    with Inr have "length graph = length pts"
      using query_loop_length [of "point_query env" ctree pts "radius g"
          "iteration_order (next_iteration env) [0..<length pts]"
          "replicate (length pts) []" 0 graph ne] by simp
    then obtain b where "graph_is_correct (Distance env) pts (radius g) graph = Inr b"
      using graph_is_correct_returns by blast
    with Inr res have "fst (graph_phase env g ctree pts) = Inr ()"
      by (simp add: graph_phase_def and_then_def say_def skip_def split_def)
    with assms show ?thesis by simp
  qed
qed

lemma graph_phase_first_query:
  assumes "pts \<noteq> []"
  shows "\<exists>i<length pts. Point_query i (radius g) \<in> set (snd (graph_phase env g ctree pts))"
proof -
  let ?order = "iteration_order (next_iteration env) [0..<length pts]"
  let ?Q = "query_loop (point_query env) ctree pts (radius g) ?order
              (replicate (length pts) []) 0"
  from assms have "set ?order \<noteq> {}"
    by (simp add: set_iteration_order lessThan_empty_iff)
  then have nonempty: "?order \<noteq> []"
    by auto
  then have "hd ?order \<in> set ?order"
    by simp
  then have bound: "hd ?order < length pts"
    by (simp add: set_iteration_order)
  from nonempty have "Point_query (hd ?order) (radius g) \<in> set (snd ?Q)"
    by (rule query_loop_first)
  then have "Point_query (hd ?order) (radius g) \<in> set (snd (graph_phase env g ctree pts))"
    by (cases "fst ?Q") (auto simp: graph_phase_def and_then_def split_def)
  with bound show ?thesis
    by blast
qed

lemma main_body_read_stops:
  assumes "read_from_file env (fname g) = None"
  shows "main_body env g = (Inl No_return, [Read_from_file (fname g)])"
  using assms by (simp add: main_body_def and_then_def call_def)

lemma main_body_build_stops:
  assumes "read_from_file env (fname g) = Some pts"
      and "build env pts (split_ratio g) (switch_size g) (min_hub_size g) (level_synch g) True (verbose g) = None"
  shows "main_body env g =
           (Inl No_return, [Read_from_file (fname g), Stdout Read_points,
              Build (split_ratio g) (switch_size g) (min_hub_size g) (level_synch g) (verbose g)])"
  using assms by (simp add: main_body_def and_then_def call_def say_def)

lemma main_body_is_correct_stops:
  assumes "read_from_file env (fname g) = Some pts"
      and "build env pts (split_ratio g) (switch_size g) (min_hub_size g) (level_synch g) True (verbose g) = Some ctree"
      and "verify_tree g" and "is_correct env ctree (split_ratio g) = None"
  shows "main_body env g =
           (Inl No_return, [Read_from_file (fname g), Stdout Read_points,
              Build (split_ratio g) (switch_size g) (min_hub_size g) (level_synch g) (verbose g),
              Stdout Constructed_cover_tree, Is_correct (split_ratio g)])"
  using assms by (simp add: main_body_def and_then_def call_def say_def)

lemma main_body_reaches_graph:
  assumes "read_from_file env (fname g) = Some pts"
      and "build env pts (split_ratio g) (switch_size g) (min_hub_size g) (level_synch g) True (verbose g) = Some ctree"
      and "verify_tree g \<longrightarrow> is_correct env ctree (split_ratio g) = Some passed"
  shows "main_body env g =
           (if build_graph g
            then (fst (graph_phase env g ctree pts),
                  tree_phase_trace g passed @ snd (graph_phase env g ctree pts))
            else (Inr (), tree_phase_trace g passed))"
  using assms
  by (cases "verify_tree g")
     (simp_all add: main_body_def and_then_def call_def say_def skip_def tree_phase_trace_def split_def)

lemma tree_phase_trace_no_graph_action: "\<not> list_ex graph_phase_action (tree_phase_trace g passed)"
  by (simp add: tree_phase_trace_def)

lemma graph_phase_has_action: "list_ex graph_phase_action (snd (graph_phase env g ctree pts))"
proof -
  let ?Q = "query_loop (point_query env) ctree pts (radius g)
              (iteration_order (next_iteration env) [0..<length pts])
              (replicate (length pts) []) 0"
  show ?thesis
  proof (cases "fst ?Q")
    case (Inl s)
    then have gp: "graph_phase env g ctree pts = (Inl s, snd ?Q)"
      by (simp add: graph_phase_def and_then_def split_def)
    from query_loop_stops [OF Inl] obtain i where
      "snd ?Q \<noteq> []" and "last (snd ?Q) = Point_query i (radius g)"
      by blast
    then have "Point_query i (radius g) \<in> set (snd ?Q)"
      using last_in_set by metis
    moreover have "graph_phase_action (Point_query i (radius g))"
      by simp
    ultimately have "list_ex graph_phase_action (snd ?Q)"
      unfolding list_ex_iff by blast
    with gp show ?thesis
      by simp
  next
    case (Inr res)
    then have "Stdout (Constructed_epsilon_graph (snd res)) \<in> set (snd (graph_phase env g ctree pts))"
      by (simp add: graph_phase_def and_then_def say_def split_def)
    moreover have "graph_phase_action (Stdout (Constructed_epsilon_graph (snd res)))"
      by simp
    ultimately show ?thesis
      unfolding list_ex_iff by blast
  qed
qed

lemma main_body_graph_action:
  assumes "list_ex graph_phase_action (snd (main_body env g))"
  shows "build_graph g"
proof (cases "read_from_file env (fname g)")
  case None
  with assms show ?thesis by (simp add: main_body_read_stops)
next
  case (Some pts)
  note read = this
  show ?thesis
  proof (cases "build env pts (split_ratio g) (switch_size g) (min_hub_size g) (level_synch g) True (verbose g)")
    case None
    with assms read show ?thesis by (simp add: main_body_build_stops)
  next
    case (Some ctree)
    note build = this
    show ?thesis
    proof (cases "verify_tree g \<and> is_correct env ctree (split_ratio g) = None")
      case True
      with assms read build show ?thesis by (simp add: main_body_is_correct_stops)
    next
      case False
      then obtain passed where "verify_tree g \<longrightarrow> is_correct env ctree (split_ratio g) = Some passed"
        by auto
      from main_body_reaches_graph [OF read build this] assms show ?thesis
        by (auto simp: tree_phase_trace_no_graph_action split: if_splits)
    qed
  qed
qed

lemma option_loop_trace_stderr:
  "\<forall>a\<in>set (snd (option_loop atof atoi g rs)). \<exists>t. a = Stderr t"
proof (induction rs arbitrary: g)
  case Nil
  then show ?case by simp
next
  case (Cons r rs)
  have rep: "\<forall>a\<in>set (getopt_report r). \<exists>t. a = Stderr t"
    by (cases r) simp_all
  show ?case
  proof (cases "loop_body atof atoi g (return_value r) (optarg_of r)")
    case (Inl s)
    with rep show ?thesis by auto
  next
    case (Inr g1)
    with rep Cons.IH [of g1] show ?thesis
      by (auto simp: split_def)
  qed
qed

lemma parse_arguments_no_graph_action:
  "\<not> list_ex graph_phase_action (snd (parse_arguments px atof atoi argv))"
proof -
  have "\<not> list_ex graph_phase_action (snd (option_loop atof atoi initial_config (getopt_returns px argv)))"
    using option_loop_trace_stderr [of atof atoi initial_config "getopt_returns px argv"]
    by (auto simp: list_ex_iff)
  then show ?thesis
    by (simp add: parse_arguments_unfold split_def split: sum.splits list.splits)
qed

lemma loop_body_radius:
  assumes "loop_body atof atoi g c a = Inr g1" and "c \<noteq> CHR ''r''"
  shows "radius g1 = radius g"
  using assms by (auto simp: loop_body_def split: if_splits)

lemma option_loop_radius:
  assumes "fst (option_loop atof atoi g rs) = Inr g1" and "CHR ''r'' \<notin> return_value ` set rs"
  shows "radius g1 = radius g"
  using assms
proof (induction rs arbitrary: g)
  case Nil
  then show ?case by simp
next
  case (Cons r rs)
  show ?case
  proof (cases "loop_body atof atoi g (return_value r) (optarg_of r)")
    case (Inl s)
    with Cons.prems show ?thesis by simp
  next
    case (Inr g2)
    with Cons.prems have "fst (option_loop atof atoi g2 rs) = Inr g1"
      by (simp add: split_def)
    moreover from Cons.prems have "CHR ''r'' \<notin> return_value ` set rs" and "return_value r \<noteq> CHR ''r''"
      by auto
    ultimately show ?thesis
      using Cons.IH [of g2] loop_body_radius [OF Inr] by simp
  qed
qed

lemma getopt_calls_return_values:
  assumes "x \<in> set (fst (getopt_calls p os cs rest sk))" and "return_value x \<noteq> CHR ''?''"
  shows "return_value x \<in> set cs \<or>
         (\<exists>a\<in>set rest. is_option_element a \<and> return_value x \<in> set (tl a))"
  using assms
proof (induction p os cs rest sk rule: getopt_calls.induct)
  case (1 permute optstring skipped)
  then show ?case by simp
next
  case (2 permute optstring a rest skipped)
  then show ?case
    by (auto split: if_splits)
next
  case (3 permute optstring c cs rest skipped)
  then show ?case
    by (auto simp: returned_def split: if_splits option.splits bool.splits list.splits)
qed

lemma getopt_returns_no_r:
  assumes "\<forall>a\<in>set (tl argv). is_option_element a \<longrightarrow> CHR ''r'' \<notin> set a"
  shows "CHR ''r'' \<notin> return_value ` set (getopt_returns px argv)"
proof
  assume "CHR ''r'' \<in> return_value ` set (getopt_returns px argv)"
  then obtain x where x: "x \<in> set (getopt_returns px argv)" and r: "return_value x = CHR ''r''"
    by auto
  from x r have "return_value x \<in> set [] \<or>
      (\<exists>a\<in>set (tl argv). is_option_element a \<and> return_value x \<in> set (tl a))"
    unfolding getopt_returns_def by (intro getopt_calls_return_values) simp_all
  with r obtain a where a: "a \<in> set (tl argv)" "is_option_element a" and "CHR ''r'' \<in> set (tl a)"
    by auto
  moreover have "set (tl a) \<subseteq> set a"
    by (cases a) auto
  ultimately have "CHR ''r'' \<in> set a"
    by blast
  with a show False
    using assms by blast
qed







lemma query_loop_all_return:
  assumes "\<forall>i\<in>set ids. q ctree (pts ! i) r = Some (rows i)"
  shows "query_loop q ctree pts r ids graph ne =
           (Inr (fold (\<lambda>i gr. gr[i := rows i]) ids graph, ne + sum_list (map (\<lambda>i. length (rows i)) ids)),
            map (\<lambda>i. Point_query i r) ids)"
  using assms
  by (induction ids arbitrary: graph ne) (simp_all add: add.assoc)

lemma fold_rows_length: "length (fold (\<lambda>i gr. gr[i := rows i]) ids graph) = length graph"
  by (induction ids arbitrary: graph) simp_all

lemma fold_rows_nth:
  assumes "k < length graph"
  shows "fold (\<lambda>i gr. gr[i := rows i]) ids graph ! k = (if k \<in> set ids then rows k else graph ! k)"
  using assms
proof (induction ids arbitrary: graph)
  case Nil
  then show ?case by simp
next
  case (Cons i ids)
  then show ?case
    by (cases "k = i") (simp_all add: fold_rows_length)
qed

lemma fold_rows_all:
  assumes "set ids = {..<n}"
  shows "fold (\<lambda>i gr. gr[i := rows i]) ids (replicate n []) = map rows [0..<n]"
  using assms by (intro nth_equalityI) (simp_all add: fold_rows_length fold_rows_nth)

lemma sum_list_rows:
  assumes "mset ids = mset ids'"
  shows "sum_list (map (\<lambda>i. length (rows i)) ids) = sum_list (map (\<lambda>i. length (rows i)) ids')"
proof -
  from assms have "mset (map (\<lambda>i. length (rows i)) ids) = mset (map (\<lambda>i. length (rows i)) ids')"
    by simp
  then show ?thesis
    by (metis sum_mset_sum_list)
qed

lemma graph_phase_all_return:
  assumes "\<forall>i<length pts. point_query env ctree (pts ! i) (radius g) = Some (rows i)"
  shows "graph_phase env g ctree pts =
           (Inr (),
            map (\<lambda>i. Point_query i (radius g)) (iteration_order (next_iteration env) [0..<length pts]) @
            [Stdout (Constructed_epsilon_graph (sum_list (map (\<lambda>i. length (rows i)) [0..<length pts])))] @
            (if verify_graph g
             then [Stdout (Graph_verification
                     (\<forall>i<length pts.
                        distinct (rows i) \<and>
                        set (rows i) =
                          int ` {j. j < length pts \<and> Distance env (pts ! i) (pts ! j) \<le> radius g}))]
             else []))"
proof -
  let ?order = "iteration_order (next_iteration env) [0..<length pts]"
  from assms have "\<forall>i\<in>set ?order. point_query env ctree (pts ! i) (radius g) = Some (rows i)"
    by (simp add: set_iteration_order)
  then have "query_loop (point_query env) ctree pts (radius g) ?order (replicate (length pts) []) 0 =
        (Inr (fold (\<lambda>i gr. gr[i := rows i]) ?order (replicate (length pts) []),
              0 + sum_list (map (\<lambda>i. length (rows i)) ?order)),
         map (\<lambda>i. Point_query i (radius g)) ?order)"
    by (rule query_loop_all_return)
  moreover have "fold (\<lambda>i gr. gr[i := rows i]) ?order (replicate (length pts) []) = map rows [0..<length pts]"
    by (rule fold_rows_all) (rule set_iteration_order)
  moreover have "sum_list (map (\<lambda>i. length (rows i)) ?order) =
      sum_list (map (\<lambda>i. length (rows i)) [0..<length pts])"
    by (rule sum_list_rows) (rule mset_iteration_order)
  ultimately have loop: "query_loop (point_query env) ctree pts (radius g) ?order (replicate (length pts) []) 0 =
        (Inr (map rows [0..<length pts], sum_list (map (\<lambda>i. length (rows i)) [0..<length pts])),
         map (\<lambda>i. Point_query i (radius g)) ?order)"
    by simp
  have "graph_is_correct (Distance env) pts (radius g) (map rows [0..<length pts]) =
      Inr (\<forall>i<length pts.
             distinct (map rows [0..<length pts] ! i) \<and>
             set (map rows [0..<length pts] ! i) =
               int ` {j. j < length pts \<and> Distance env (pts ! i) (pts ! j) \<le> radius g})"
    by (rule graph_is_correct_verdict) simp
  also have "(\<forall>i<length pts.
             distinct (map rows [0..<length pts] ! i) \<and>
             set (map rows [0..<length pts] ! i) =
               int ` {j. j < length pts \<and> Distance env (pts ! i) (pts ! j) \<le> radius g}) \<longleftrightarrow>
      (\<forall>i<length pts.
             distinct (rows i) \<and>
             set (rows i) =
               int ` {j. j < length pts \<and> Distance env (pts ! i) (pts ! j) \<le> radius g})"
    by auto
  finally show ?thesis
    by (simp add: graph_phase_def loop and_then_def say_def skip_def)
qed

lemma main_body_defined:
  assumes "fst (main_body env g) = Inl s"
  shows "s = No_return"
proof (cases "read_from_file env (fname g)")
  case None
  with assms show ?thesis by (simp add: main_body_read_stops)
next
  case (Some pts)
  note read = this
  show ?thesis
  proof (cases "build env pts (split_ratio g) (switch_size g) (min_hub_size g) (level_synch g) True (verbose g)")
    case None
    with assms read show ?thesis by (simp add: main_body_build_stops)
  next
    case (Some ctree)
    note build = this
    show ?thesis
    proof (cases "verify_tree g \<and> is_correct env ctree (split_ratio g) = None")
      case True
      with assms read build show ?thesis by (simp add: main_body_is_correct_stops)
    next
      case False
      then obtain passed where "verify_tree g \<longrightarrow> is_correct env ctree (split_ratio g) = Some passed"
        by auto
      from main_body_reaches_graph [OF read build this] assms graph_phase_stops [of env g ctree pts s]
      show ?thesis
        by (auto split: if_splits)
    qed
  qed
qed

lemma main_defined: "fst (main px atof atoi env argv) \<noteq> Stop (Undefined e)"
proof (cases "fst (parse_arguments px atof atoi argv)")
  case (Inl status)
  then show ?thesis
    by (simp add: main_def split_def)
next
  case (Inr g)
  then show ?thesis
    using main_body_defined [of env g "Undefined e"]
    by (auto simp: main_def split_def split: sum.splits)
qed

lemma parse_arguments_build_graph:
  assumes "parse_arguments px atof atoi argv = (Inr g, tr0)"
  shows "build_graph g \<longleftrightarrow> 0 < radius g"
  using assms
  by (auto simp: parse_arguments_unfold split_def split: sum.splits list.splits)

lemma main_complete_run:
  assumes "parse_arguments px atof atoi argv = (Inr g, tr0)"
      and "read_from_file env (fname g) = Some pts"
      and "build env pts (split_ratio g) (switch_size g) (min_hub_size g) (level_synch g) True (verbose g)
             = Some ctree"
      and "verify_tree g \<longrightarrow> is_correct env ctree (split_ratio g) = Some passed"
      and "0 < radius g"
      and "\<forall>i<length pts. point_query env ctree (pts ! i) (radius g) = Some (rows i)"
  shows "main px atof atoi env argv =
           (Exit 0,
            tr0 @ tree_phase_trace g passed @
            map (\<lambda>i. Point_query i (radius g)) (iteration_order (next_iteration env) [0..<length pts]) @
            [Stdout (Constructed_epsilon_graph (sum_list (map (\<lambda>i. length (rows i)) [0..<length pts])))] @
            (if verify_graph g
             then [Stdout (Graph_verification
                     (\<forall>i<length pts.
                        distinct (rows i) \<and>
                        set (rows i) =
                          int ` {j. j < length pts \<and> Distance env (pts ! i) (pts ! j) \<le> radius g}))]
             else []))"
proof -
  from assms(1,5) have "build_graph g"
    by (simp add: parse_arguments_build_graph)
  with main_body_reaches_graph [OF assms(2,3,4)] graph_phase_all_return [OF assms(6)]
  have "main_body env g =
      (Inr (),
       tree_phase_trace g passed @
       map (\<lambda>i. Point_query i (radius g)) (iteration_order (next_iteration env) [0..<length pts]) @
       [Stdout (Constructed_epsilon_graph (sum_list (map (\<lambda>i. length (rows i)) [0..<length pts])))] @
       (if verify_graph g
        then [Stdout (Graph_verification
                (\<forall>i<length pts.
                   distinct (rows i) \<and>
                   set (rows i) =
                     int ` {j. j < length pts \<and> Distance env (pts ! i) (pts ! j) \<le> radius g}))]
        else []))"
    by simp
  with assms(1) show ?thesis
    by (simp add: main_def)
qed

lemma main_exits_in_parse:
  assumes "fst (parse_arguments px atof atoi argv) = Inl status"
  shows "\<not> list_ex graph_phase_action (snd (main px atof atoi env argv))"
proof -
  from assms have "snd (main px atof atoi env argv) = snd (parse_arguments px atof atoi argv)"
    by (simp add: main_def split_def)
  then show ?thesis
    by (simp add: parse_arguments_no_graph_action)
qed

lemma main_first_query:
  assumes "parse_arguments px atof atoi argv = (Inr g, tr0)"
      and "read_from_file env (fname g) = Some pts"
      and "build env pts (split_ratio g) (switch_size g) (min_hub_size g) (level_synch g) True (verbose g)
             = Some ctree"
      and "verify_tree g \<longrightarrow> is_correct env ctree (split_ratio g) = Some passed"
      and "0 < radius g" and "pts \<noteq> []"
  shows "\<exists>i<length pts. Point_query i (radius g) \<in> set (snd (main px atof atoi env argv))"
proof -
  from assms(1,5) have "build_graph g"
    by (simp add: parse_arguments_build_graph)
  with main_body_reaches_graph [OF assms(2,3,4)]
  have "snd (main_body env g) = tree_phase_trace g passed @ snd (graph_phase env g ctree pts)"
    by simp
  with assms(1) have "set (snd (graph_phase env g ctree pts)) \<subseteq> set (snd (main px atof atoi env argv))"
    by (auto simp: main_def split_def split: sum.splits)
  with graph_phase_first_query [OF assms(6), of g env ctree] show ?thesis
    by blast
qed

lemmas run_defs =
  main_def parse_arguments_def loop_body_def initial_config_def returned_def main_body_def
  graph_phase_def and_then_def call_def say_def skip_def graph_is_correct_def
  brute_force_neighbors_def is_permutation_def sample_env_def sample_atof_def sample_atoi_def







text \<open>
  Claim C5 says that with a positive radius and \<open>-o\<close> the shared-memory driver writes
  the graph's edges as lines \<open>src_id dst_id\<close>. Its \<open>main\<close> has no statement that writes a
  file: \<open>prog -r 2 -o out.txt pts\<close> computes five edges, prints their count and returns 0,
  and these are all its actions.
\<close>

theorem graph_output_counterexample:
  "main False sample_atof sample_atoi sample_env
     [''prog'', ''-r'', ''2'', ''-o'', ''out.txt'', ''pts''] =
     (Exit 0,
      [Stdout Cmd, Stdout Point_parameters, Stdout Ctree_parameters, Stdout Graph_parameters,
       Read_from_file (Some ''pts''), Stdout Read_points, Build (1 / 2) 0 10 True False,
       Stdout Constructed_cover_tree, Point_query 0 2, Point_query 1 2, Point_query 2 2,
       Stdout (Constructed_epsilon_graph 5)])"
  by (simp add: run_defs upt_rec iteration_order_first)

text \<open>
  Claim C5 as amended. For every run of the shared-memory driver in which the graph
  phase is enabled (radius greater than 0) and every call returns, the graph is
  written nowhere. After the actions of \<open>parse_arguments\<close> and of the tree phase, the run
  consists of one point query per point, in the order the OpenMP runtime starts the
  iterations, the log line with the number of edges and, with \<open>-G\<close>, the verification
  line; and it ends with status 0.
\<close>

theorem graph_counted_not_written:
  assumes "parse_arguments px atof atoi argv = (Inr g, tr0)"
      and "read_from_file env (fname g) = Some pts"
      and "build env pts (split_ratio g) (switch_size g) (min_hub_size g) (level_synch g) True (verbose g)
             = Some ctree"
      and "verify_tree g \<longrightarrow> is_correct env ctree (split_ratio g) = Some passed"
      and "0 < radius g"
      and "\<forall>i<length pts. point_query env ctree (pts ! i) (radius g) = Some (rows i)"
  shows "mset (iteration_order (next_iteration env) [0..<length pts]) = mset [0..<length pts] \<and>
         main px atof atoi env argv =
           (Exit 0,
            tr0 @ tree_phase_trace g passed @
            map (\<lambda>i. Point_query i (radius g)) (iteration_order (next_iteration env) [0..<length pts]) @
            [Stdout (Constructed_epsilon_graph (sum_list (map (\<lambda>i. length (rows i)) [0..<length pts])))] @
            (if verify_graph g
             then [Stdout (Graph_verification
                     (\<forall>i<length pts.
                        distinct (rows i) \<and>
                        set (rows i) =
                          int ` {j. j < length pts \<and> Distance env (pts ! i) (pts ! j) \<le> radius g}))]
             else []))"
  using main_complete_run [OF assms] mset_iteration_order [of "next_iteration env" "[0..<length pts]"]
  by (rule_tac conjI)

theorem graph_counted_not_written_witness:
  "parse_arguments False sample_atof sample_atoi [''prog'', ''-r'', ''2'', ''-o'', ''out.txt'', ''pts''] =
     (Inr \<lparr>fname = Some ''pts'', tree_fname = Some ''out.txt'', radius = 2, split_ratio = 1 / 2,
           switch_size = 0, min_hub_size = 10, level_synch = True, verify_tree = False,
           verify_graph = False, build_graph = True, verbose = False, nthreads = 1\<rparr>,
      [Stdout Cmd, Stdout Point_parameters, Stdout Ctree_parameters, Stdout Graph_parameters]) \<and>
   read_from_file sample_env (Some ''pts'') = Some [0, 1, 5] \<and>
   build sample_env [0, 1, 5] (1 / 2) 0 10 True True False = Some () \<and>
   (\<forall>i<length [0, 1, 5 :: real].
      point_query sample_env () ([0, 1, 5] ! i) 2 = Some ([[1, 0], [1, 0], [2]] ! i)) = True \<and>
   main False sample_atof sample_atoi sample_env [''prog'', ''-r'', ''2'', ''-o'', ''out.txt'', ''pts''] =
     (Exit 0,
      [Stdout Cmd, Stdout Point_parameters, Stdout Ctree_parameters, Stdout Graph_parameters,
       Read_from_file (Some ''pts''), Stdout Read_points, Build (1 / 2) 0 10 True False,
       Stdout Constructed_cover_tree, Point_query 0 2, Point_query 1 2, Point_query 2 2,
       Stdout (Constructed_epsilon_graph 5)])"
proof -
  let ?g = "\<lparr>fname = Some ''pts'', tree_fname = Some ''out.txt'', radius = 2, split_ratio = 1 / 2,
         switch_size = 0, min_hub_size = 10, level_synch = True, verify_tree = False,
         verify_graph = False, build_graph = True, verbose = False, nthreads = 1\<rparr>"
  let ?argv = "[''prog'', ''-r'', ''2'', ''-o'', ''out.txt'', ''pts'']"
  let ?tr0 = "[Stdout Cmd, Stdout Point_parameters, Stdout Ctree_parameters, Stdout Graph_parameters]"
  have parse: "parse_arguments False sample_atof sample_atoi ?argv = (Inr ?g, ?tr0)"
    by (simp add: run_defs)
  have read: "read_from_file sample_env (fname ?g) = Some [0, 1, 5]"
    by (simp add: sample_env_def)
  have build: "build sample_env [0, 1, 5] (split_ratio ?g) (switch_size ?g) (min_hub_size ?g)
      (level_synch ?g) True (verbose ?g) = Some ()"
    by (simp add: sample_env_def)
  have verdict: "verify_tree ?g \<longrightarrow> is_correct sample_env () (split_ratio ?g) = Some False"
    by simp
  have radius: "0 < radius ?g"
    by simp
  have queries: "\<forall>i<length [0, 1, 5 :: real].
      point_query sample_env () ([0, 1, 5] ! i) (radius ?g) = Some ([[1, 0], [1, 0], [2]] ! i)"
    by (simp add: sample_env_def All_less_Suc eval_nat_numeral)
  from graph_counted_not_written [OF parse read build verdict radius queries]
  have run: "main False sample_atof sample_atoi sample_env ?argv =
     (Exit 0,
      [Stdout Cmd, Stdout Point_parameters, Stdout Ctree_parameters, Stdout Graph_parameters,
       Read_from_file (Some ''pts''), Stdout Read_points, Build (1 / 2) 0 10 True False,
       Stdout Constructed_cover_tree, Point_query 0 2, Point_query 1 2, Point_query 2 2,
       Stdout (Constructed_epsilon_graph 5)])"
    by (simp add: tree_phase_trace_def sample_env_def iteration_order_first upt_rec)
  from queries have "(\<forall>i<length [0, 1, 5 :: real].
      point_query sample_env () ([0, 1, 5] ! i) 2 = Some ([[1, 0], [1, 0], [2]] ! i)) = True"
    by simp
  with parse read build run show ?thesis
    by simp
qed

text \<open>
  Claim C6. The graph phase runs exactly when the parsed radius is greater than 0. A
  run performs an action of the graph phase (a point query, the graph's log line, the
  graph's verification line) only if \<open>parse_arguments\<close> has returned with a radius
  greater than 0. \<open>parse_arguments\<close> sets \<open>build_graph\<close> to that comparison, and the radius
  keeps its initial value 0 when no element of the command line that holds options
  contains the letter \<open>r\<close>. When the radius is greater than 0 and the calls before the
  phase have returned, the run queries a point, if there is one, at that radius; and
  when the queries return too, it queries every point once, in the order the OpenMP
  runtime starts the iterations, and prints the graph's log line.
\<close>

theorem graph_phase_iff_radius_positive:
  "(list_ex graph_phase_action (snd (main px atof atoi env argv)) \<longrightarrow>
      (\<exists>g tr0. parse_arguments px atof atoi argv = (Inr g, tr0) \<and> 0 < radius g)) \<and>
   (parse_arguments px atof atoi argv = (Inr g, tr0) \<longrightarrow>
      (build_graph g \<longleftrightarrow> 0 < radius g) \<and>
      (CHR ''r'' \<notin> return_value ` set (getopt_returns px argv) \<longrightarrow> radius g = 0 \<and> \<not> build_graph g) \<and>
      ((\<forall>a\<in>set (tl argv). is_option_element a \<longrightarrow> CHR ''r'' \<notin> set a) \<longrightarrow>
         radius g = 0 \<and> \<not> build_graph g) \<and>
      (\<not> 0 < radius g \<longrightarrow> \<not> list_ex graph_phase_action (snd (main px atof atoi env argv))) \<and>
      (0 < radius g \<longrightarrow>
       read_from_file env (fname g) = Some pts \<longrightarrow>
       build env pts (split_ratio g) (switch_size g) (min_hub_size g) (level_synch g) True (verbose g)
         = Some ctree \<longrightarrow>
       (verify_tree g \<longrightarrow> is_correct env ctree (split_ratio g) = Some passed) \<longrightarrow>
         list_ex graph_phase_action (snd (main px atof atoi env argv)) \<and>
         (pts \<noteq> [] \<longrightarrow>
            (\<exists>i<length pts. Point_query i (radius g) \<in> set (snd (main px atof atoi env argv)))) \<and>
         ((\<forall>i<length pts. point_query env ctree (pts ! i) (radius g) = Some (rows i)) \<longrightarrow>
            mset (iteration_order (next_iteration env) [0..<length pts]) = mset [0..<length pts] \<and>
            snd (main px atof atoi env argv) =
              tr0 @ tree_phase_trace g passed @
              map (\<lambda>i. Point_query i (radius g)) (iteration_order (next_iteration env) [0..<length pts]) @
              [Stdout (Constructed_epsilon_graph (sum_list (map (\<lambda>i. length (rows i)) [0..<length pts])))] @
              (if verify_graph g
               then [Stdout (Graph_verification
                       (\<forall>i<length pts.
                          distinct (rows i) \<and>
                          set (rows i) =
                            int ` {j. j < length pts \<and> Distance env (pts ! i) (pts ! j) \<le> radius g}))]
               else []))))"
proof (intro conjI impI)
  assume seen: "list_ex graph_phase_action (snd (main px atof atoi env argv))"
  show "\<exists>g tr0. parse_arguments px atof atoi argv = (Inr g, tr0) \<and> 0 < radius g"
  proof (cases "fst (parse_arguments px atof atoi argv)")
    case (Inl status)
    from main_exits_in_parse [OF this, of env] seen show ?thesis
      by blast
  next
    case (Inr g')
    then have parse: "parse_arguments px atof atoi argv = (Inr g', snd (parse_arguments px atof atoi argv))"
      by (simp add: prod_eq_iff)
    from Inr seen parse_arguments_no_graph_action [of px atof atoi argv]
    have "list_ex graph_phase_action (snd (main_body env g'))"
      by (simp add: main_def split_def split: sum.splits)
    then have "build_graph g'"
      by (rule main_body_graph_action)
    with parse have "0 < radius g'"
      by (simp add: parse_arguments_build_graph)
    with parse show ?thesis
      by blast
  qed
next
  assume parse: "parse_arguments px atof atoi argv = (Inr g, tr0)"
  then show "build_graph g \<longleftrightarrow> 0 < radius g"
    by (rule parse_arguments_build_graph)
  let ?L = "option_loop atof atoi initial_config (getopt_returns px argv)"
  from parse obtain g0 f others where
    loop: "fst ?L = Inr g0" and
    g: "g = g0\<lparr>fname := Some f, build_graph := (0 < radius g0)\<rparr>"
    by (auto simp: parse_arguments_unfold split_def split: sum.splits list.splits)
  have no_r: "radius g = 0 \<and> \<not> build_graph g"
    if "CHR ''r'' \<notin> return_value ` set (getopt_returns px argv)"
  proof -
    from option_loop_radius [OF loop that] have "radius g0 = 0"
      by (simp add: initial_config_def)
    with g show ?thesis by simp
  qed
  show "radius g = 0" if "CHR ''r'' \<notin> return_value ` set (getopt_returns px argv)"
    using no_r that by simp
  show "\<not> build_graph g" if "CHR ''r'' \<notin> return_value ` set (getopt_returns px argv)"
    using no_r that by simp
  have no_letter: "radius g = 0 \<and> \<not> build_graph g"
    if "\<forall>a\<in>set (tl argv). is_option_element a \<longrightarrow> CHR ''r'' \<notin> set a"
    using that no_r getopt_returns_no_r [of argv px] by blast
  show "radius g = 0" if "\<forall>a\<in>set (tl argv). is_option_element a \<longrightarrow> CHR ''r'' \<notin> set a"
    using no_letter that by simp
  show "\<not> build_graph g" if "\<forall>a\<in>set (tl argv). is_option_element a \<longrightarrow> CHR ''r'' \<notin> set a"
    using no_letter that by simp
  have main: "snd (main px atof atoi env argv) = tr0 @ snd (main_body env g)"
    using parse by (simp add: main_def split_def split: sum.splits)
  have tr0: "\<not> list_ex graph_phase_action tr0"
    using parse_arguments_no_graph_action [of px atof atoi argv] parse by simp
  show "\<not> list_ex graph_phase_action (snd (main px atof atoi env argv))" if "\<not> 0 < radius g"
  proof
    assume "list_ex graph_phase_action (snd (main px atof atoi env argv))"
    with tr0 main have "list_ex graph_phase_action (snd (main_body env g))"
      by simp
    then have "build_graph g"
      by (rule main_body_graph_action)
    with parse that show False
      by (simp add: parse_arguments_build_graph)
  qed
  assume radius: "0 < radius g"
    and read: "read_from_file env (fname g) = Some pts"
    and build: "build env pts (split_ratio g) (switch_size g) (min_hub_size g) (level_synch g) True (verbose g) = Some ctree"
    and verdict: "verify_tree g \<longrightarrow> is_correct env ctree (split_ratio g) = Some passed"
  from parse radius have bg: "build_graph g"
    by (simp add: parse_arguments_build_graph)
  from main_body_reaches_graph [OF read build verdict] bg
  have "snd (main_body env g) = tree_phase_trace g passed @ snd (graph_phase env g ctree pts)"
    by simp
  with main graph_phase_has_action [of env g ctree pts]
  show "list_ex graph_phase_action (snd (main px atof atoi env argv))"
    by simp
  show "\<exists>i<length pts. Point_query i (radius g) \<in> set (snd (main px atof atoi env argv))"
    if "pts \<noteq> []"
    using parse read build verdict radius that by (rule main_first_query)
  assume queries: "\<forall>i<length pts. point_query env ctree (pts ! i) (radius g) = Some (rows i)"
  show "mset (iteration_order (next_iteration env) [0..<length pts]) = mset [0..<length pts]"
    by (rule mset_iteration_order)
  from main_complete_run [OF parse read build verdict radius queries]
  show "snd (main px atof atoi env argv) =
      tr0 @ tree_phase_trace g passed @
      map (\<lambda>i. Point_query i (radius g)) (iteration_order (next_iteration env) [0..<length pts]) @
      [Stdout (Constructed_epsilon_graph (sum_list (map (\<lambda>i. length (rows i)) [0..<length pts])))] @
      (if verify_graph g
       then [Stdout (Graph_verification
               (\<forall>i<length pts.
                  distinct (rows i) \<and>
                  set (rows i) =
                    int ` {j. j < length pts \<and> Distance env (pts ! i) (pts ! j) \<le> radius g}))]
       else [])"
    by simp
qed

theorem graph_phase_iff_radius_positive_witness:
  "parse_arguments False sample_atof sample_atoi [''prog'', ''-r'', ''2'', ''pts''] =
     (Inr \<lparr>fname = Some ''pts'', tree_fname = None, radius = 2, split_ratio = 1 / 2,
           switch_size = 0, min_hub_size = 10, level_synch = True, verify_tree = False,
           verify_graph = False, build_graph = True, verbose = False, nthreads = 1\<rparr>,
      [Stdout Cmd, Stdout Point_parameters, Stdout Ctree_parameters, Stdout Graph_parameters]) \<and>
   read_from_file sample_env (Some ''pts'') = Some [0, 1, 5] \<and>
   build sample_env [0, 1, 5] (1 / 2) 0 10 True True False = Some () \<and>
   (\<forall>i<length [0, 1, 5 :: real].
      point_query sample_env () ([0, 1, 5] ! i) 2 = Some ([[1, 0], [1, 0], [2]] ! i)) = True \<and>
   snd (main False sample_atof sample_atoi sample_env [''prog'', ''-r'', ''2'', ''pts'']) =
     [Stdout Cmd, Stdout Point_parameters, Stdout Ctree_parameters, Stdout Graph_parameters,
      Read_from_file (Some ''pts''), Stdout Read_points, Build (1 / 2) 0 10 True False,
      Stdout Constructed_cover_tree, Point_query 0 2, Point_query 1 2, Point_query 2 2,
      Stdout (Constructed_epsilon_graph 5)] \<and>
   parse_arguments False sample_atof sample_atoi [''prog'', ''pts''] =
     (Inr \<lparr>fname = Some ''pts'', tree_fname = None, radius = 0, split_ratio = 1 / 2,
           switch_size = 0, min_hub_size = 10, level_synch = True, verify_tree = False,
           verify_graph = False, build_graph = False, verbose = False, nthreads = 1\<rparr>,
      [Stdout Cmd, Stdout Point_parameters, Stdout Ctree_parameters]) \<and>
   \<not> list_ex graph_phase_action
     (snd (main False sample_atof sample_atoi sample_env [''prog'', ''pts'']))"
proof -
  let ?g = "\<lparr>fname = Some ''pts'', tree_fname = None, radius = 2, split_ratio = 1 / 2,
           switch_size = 0, min_hub_size = 10, level_synch = True, verify_tree = False,
           verify_graph = False, build_graph = True, verbose = False, nthreads = 1\<rparr>"
  let ?h = "\<lparr>fname = Some ''pts'', tree_fname = None, radius = 0, split_ratio = 1 / 2,
           switch_size = 0, min_hub_size = 10, level_synch = True, verify_tree = False,
           verify_graph = False, build_graph = False, verbose = False, nthreads = 1\<rparr>"
  let ?tr0 = "[Stdout Cmd, Stdout Point_parameters, Stdout Ctree_parameters, Stdout Graph_parameters]"
  have with_r: "parse_arguments False sample_atof sample_atoi [''prog'', ''-r'', ''2'', ''pts''] =
     (Inr ?g, ?tr0)"
    by (simp add: run_defs)
  have without_r: "parse_arguments False sample_atof sample_atoi [''prog'', ''pts''] =
     (Inr ?h, [Stdout Cmd, Stdout Point_parameters, Stdout Ctree_parameters])"
    by (simp add: run_defs)
  have read: "read_from_file sample_env (fname ?g) = Some [0, 1, 5]"
    and build: "build sample_env [0, 1, 5] (split_ratio ?g) (switch_size ?g) (min_hub_size ?g)
        (level_synch ?g) True (verbose ?g) = Some ()"
    by (simp_all add: sample_env_def)
  have verdict: "verify_tree ?g \<longrightarrow> is_correct sample_env () (split_ratio ?g) = Some False"
    by simp
  have radius: "0 < radius ?g"
    by simp
  have queries: "\<forall>i<length [0, 1, 5 :: real].
      point_query sample_env () ([0, 1, 5] ! i) (radius ?g) = Some ([[1, 0], [1, 0], [2]] ! i)"
    by (simp add: sample_env_def All_less_Suc eval_nat_numeral)
  note th = graph_phase_iff_radius_positive [of False sample_atof sample_atoi sample_env
      "[''prog'', ''-r'', ''2'', ''pts'']" ?g ?tr0 "[0, 1, 5]" "()" False
      "\<lambda>i. [[1, 0], [1, 0], [2]] ! i"]
  from th with_r radius read build verdict queries
  have "snd (main False sample_atof sample_atoi sample_env [''prog'', ''-r'', ''2'', ''pts'']) =
      ?tr0 @ tree_phase_trace ?g False @
      map (\<lambda>i. Point_query i (radius ?g)) (iteration_order (next_iteration sample_env) [0..<length [0, 1, 5 :: real]]) @
      [Stdout (Constructed_epsilon_graph (sum_list (map (\<lambda>i. length ([[1, 0], [1, 0], [2 :: int]] ! i)) [0..<length [0, 1, 5 :: real]])))] @
      (if verify_graph ?g
       then [Stdout (Graph_verification
               (\<forall>i<length [0, 1, 5 :: real].
                  distinct ([[1, 0], [1, 0], [2 :: int]] ! i) \<and>
                  set ([[1, 0], [1, 0], [2]] ! i) =
                    int ` {j. j < length [0, 1, 5 :: real] \<and> Distance sample_env ([0, 1, 5] ! i) ([0, 1, 5] ! j) \<le> radius ?g}))]
       else [])"
    by blast
  then have ran: "snd (main False sample_atof sample_atoi sample_env [''prog'', ''-r'', ''2'', ''pts'']) =
     [Stdout Cmd, Stdout Point_parameters, Stdout Ctree_parameters, Stdout Graph_parameters,
      Read_from_file (Some ''pts''), Stdout Read_points, Build (1 / 2) 0 10 True False,
      Stdout Constructed_cover_tree, Point_query 0 2, Point_query 1 2, Point_query 2 2,
      Stdout (Constructed_epsilon_graph 5)]"
    by (simp add: tree_phase_trace_def sample_env_def iteration_order_first upt_rec)
  have "\<not> 0 < radius ?h"
    by simp
  with graph_phase_iff_radius_positive [of False sample_atof sample_atoi sample_env
      "[''prog'', ''pts'']" ?h "[Stdout Cmd, Stdout Point_parameters, Stdout Ctree_parameters]"] without_r
  have idle: "\<not> list_ex graph_phase_action
     (snd (main False sample_atof sample_atoi sample_env [''prog'', ''pts'']))"
    by blast
  from queries have "(\<forall>i<length [0, 1, 5 :: real].
      point_query sample_env () ([0, 1, 5] ! i) 2 = Some ([[1, 0], [1, 0], [2]] ! i)) = True"
    by simp
  with with_r read build ran without_r idle show ?thesis
    by simp
qed



end
